theory Spec2Isabelle
  imports Main "HOL-Library.Word"
begin

section \<open>Strings of UTF-16 code units\<close>

text \<open>
  A JavaScript string is a sequence of 16-bit code units. The characters the
  program tests for are the space, the tab, and the line feed and carriage
  return; the regular expression \<^verbatim>\<open>/^[ \t]*/gm\<close> also knows the two
  Unicode line terminators U+2028 and U+2029.
\<close>

type_synonym jschar = "16 word"
type_synonym jsstring = "jschar list"

abbreviation TAB :: jschar where "TAB \<equiv> 0x09"
abbreviation LF :: jschar where "LF \<equiv> 0x0A"
abbreviation CR :: jschar where "CR \<equiv> 0x0D"
abbreviation SP :: jschar where "SP \<equiv> 0x20"
abbreviation LS :: jschar where "LS \<equiv> 0x2028"
abbreviation PS :: jschar where "PS \<equiv> 0x2029"

text \<open>An ASCII literal as a JavaScript string.\<close>

definition js :: "string \<Rightarrow> jsstring" where
  "js s = map (\<lambda>c. of_nat (of_char c)) s"

text \<open>\<^verbatim>\<open>str[i]\<close>: the code unit at index \<open>i\<close>, or \<^verbatim>\<open>undefined\<close> (here \<open>None\<close>)
  out of range.\<close>

definition char_at :: "jsstring \<Rightarrow> nat \<Rightarrow> jschar option" where
  "char_at str i = (if i < length str then Some (str ! i) else None)"

text \<open>\<^verbatim>\<open>str.slice(a, b)\<close> for non-negative indices: empty when \<open>b \<le> a\<close>.\<close>

definition slice_js :: "jsstring \<Rightarrow> nat \<Rightarrow> nat \<Rightarrow> jsstring" where
  "slice_js str a b = take (b - a) (drop a str)"

text \<open>\<^verbatim>\<open>c.repeat(n)\<close> for a count that is not negative.\<close>

definition repeat :: "jschar \<Rightarrow> nat \<Rightarrow> jsstring" where
  "repeat c n = replicate n c"

text \<open>
  \<^verbatim>\<open>~~(a / b)\<close> on integers: the quotient truncated towards zero, and \<open>0\<close> when
  the quotient is infinite or not a number (\<open>b = 0\<close>). The wrap-around of the
  conversion to 32 bits is left out: both callers divide a width by the tab
  size, so the quotient is at most the number of characters of the run, and
  strings are modelled as lists of any length.
\<close>

definition trunc_div :: "int \<Rightarrow> int \<Rightarrow> int" where
  "trunc_div a b = (if b = 0 then 0 else sgn a * sgn b * (\<bar>a\<bar> div \<bar>b\<bar>))"

definition is_blank :: "jschar \<Rightarrow> bool" where
  "is_blank c = (c = SP \<or> c = TAB)"

definition is_line_terminator :: "jschar \<Rightarrow> bool" where
  "is_line_terminator c = (c = LF \<or> c = CR \<or> c = LS \<or> c = PS)"

abbreviation not_terminator :: "jschar \<Rightarrow> bool" where
  "not_terminator \<equiv> (\<lambda>c. \<not> is_line_terminator c)"

text \<open>The characters the forward scan of \<^verbatim>\<open>getLineEnd\<close> passes over.\<close>

abbreviation not_line_break :: "jschar \<Rightarrow> bool" where
  "not_line_break \<equiv> (\<lambda>c. c \<noteq> LF \<and> c \<noteq> CR)"

section \<open>The text area\<close>

text \<open>
  The state of the \<^verbatim>\<open>HTMLTextAreaElement\<close> the two operations work on: its
  value and selection, and the effects performed on it so far (each call of
  \<^verbatim>\<open>setRangeText\<close> with its arguments, each dispatched \<^verbatim>\<open>input\<close> event).
\<close>

datatype select_mode = Select | Start | End | Preserve

datatype effect = SetRangeText jsstring nat nat select_mode | InputEvent

datatype dom_error = IndexSizeError

record textarea =
  text_value :: jsstring
  selectionStart :: nat
  selectionEnd :: nat
  effects :: "effect list"

record IndentConfig =
  tabSize :: nat
  insertSpaces :: bool

text \<open>
  \<^verbatim>\<open>input.setRangeText(replacement, start, end, selectMode)\<close>, after the
  algorithm of the HTML Standard: it raises \<^verbatim>\<open>IndexSizeError\<close> when
  \<open>start > end\<close>, clamps both to the length of the value, replaces the range
  and moves the selection as the mode says.
\<close>

definition setRangeText ::
  "jsstring \<Rightarrow> nat \<Rightarrow> nat \<Rightarrow> select_mode \<Rightarrow> textarea \<Rightarrow> dom_error + textarea" where
  "setRangeText replacement start end' mode input =
     (if start > end' then Inl IndexSizeError
      else
        let n = length (text_value input);
            s = min start n;
            e = min end' n;
            new_length = length replacement;
            new_end = s + new_length;
            delta = int new_length - int (e - s);
            sel_start = selectionStart input;
            sel_end = selectionEnd input;
            sel = (case mode of
                     Select \<Rightarrow> (s, new_end)
                   | Start \<Rightarrow> (s, s)
                   | End \<Rightarrow> (new_end, new_end)
                   | Preserve \<Rightarrow>
                       (if sel_start > e then nat (int sel_start + delta)
                        else if sel_start > s then s else sel_start,
                        if sel_end > e then nat (int sel_end + delta)
                        else if sel_end > s then new_end else sel_end))
        in Inr (input\<lparr>text_value := take s (text_value input) @ replacement @ drop e (text_value input),
                      selectionStart := fst sel,
                      selectionEnd := snd sel,
                      effects := effects input @ [SetRangeText replacement start end' mode]\<rparr>))"

text \<open>\<^verbatim>\<open>input.dispatchEvent(new Event("input"))\<close>.\<close>

definition dispatchEvent :: "textarea \<Rightarrow> textarea" where
  "dispatchEvent input = input\<lparr>effects := effects input @ [InputEvent]\<rparr>"

section \<open>Line utilities\<close>

fun getLineStart :: "jsstring \<Rightarrow> nat \<Rightarrow> nat" where
  "getLineStart str 0 = 0"
| "getLineStart str (Suc i) =
     (if char_at str i \<noteq> Some LF then getLineStart str i else Suc i)"

function scan_line_end :: "jsstring \<Rightarrow> nat \<Rightarrow> nat" where
  "scan_line_end str index =
     (if index < length str \<and> char_at str index \<noteq> Some LF \<and> char_at str index \<noteq> Some CR
      then scan_line_end str (Suc index) else index)"
  by pat_completeness auto
termination
  by (relation "measure (\<lambda>(str, index). length str - index)") auto

declare scan_line_end.simps [simp del]

definition getLineEnd :: "jsstring \<Rightarrow> nat \<Rightarrow> nat" where
  "getLineEnd str index =
     (if index > 0 \<and> char_at str (index - 1) = Some LF then index - 1
      else scan_line_end str index)"

function isMultiLine :: "jsstring \<Rightarrow> nat \<Rightarrow> nat \<Rightarrow> bool" where
  "isMultiLine str i end' =
     (if i < end' then (if char_at str i = Some LF then True else isMultiLine str (Suc i) end')
      else False)"
  by pat_completeness auto
termination
  by (relation "measure (\<lambda>(str, i, end'). end' - i)") auto

declare isMultiLine.simps [simp del]

function count_loop :: "jsstring \<Rightarrow> nat \<Rightarrow> nat \<Rightarrow> nat \<Rightarrow> nat" where
  "count_loop str tab i count =
     (if i < length str then
        (if char_at str i = Some SP then count_loop str tab (Suc i) (count + 1)
         else if char_at str i = Some TAB then count_loop str tab (Suc i) (count + tab)
         else count)
      else count)"
  by pat_completeness auto
termination
  by (relation "measure (\<lambda>(str, tab, i, count). length str - i)") auto

declare count_loop.simps [simp del]

definition countLeadingSpaces :: "jsstring \<Rightarrow> nat \<Rightarrow> nat \<Rightarrow> nat" where
  "countLeadingSpaces str start tab = count_loop str tab start 0"

section \<open>Replacing the leading runs\<close>

text \<open>
  \<^verbatim>\<open>str.replaceAll(/^[ \t]*/gm, f)\<close>. With the flags \<^verbatim>\<open>g\<close> and \<^verbatim>\<open>m\<close> the
  pattern matches at index 0 and just after every line terminator, each time
  the longest run of spaces and tabs there (possibly empty; after an empty
  match the search resumes one code unit further). Each match is replaced by
  \<open>f run offset str\<close>; every other code unit is copied. The flag of
  \<open>replace_leading\<close> says whether the current offset is such a line start.
\<close>

function replace_leading ::
  "(jsstring \<Rightarrow> nat \<Rightarrow> jsstring \<Rightarrow> jsstring) \<Rightarrow> jsstring \<Rightarrow> bool \<Rightarrow> nat \<Rightarrow> jsstring \<Rightarrow> jsstring" where
  "replace_leading f str True offset rest =
     f (takeWhile is_blank rest) offset str
       @ replace_leading f str False (offset + length (takeWhile is_blank rest)) (dropWhile is_blank rest)"
| "replace_leading f str False offset [] = []"
| "replace_leading f str False offset (c # cs) =
     c # replace_leading f str (is_line_terminator c) (Suc offset) cs"
  by pat_completeness auto
termination
  by (relation "measure (\<lambda>(f, str, bol, offset, rest). 2 * length rest + (if bol then 1 else 0))")
     (auto simp: length_dropWhile_le le_imp_less_Suc)

definition replaceAll_leading :: "(jsstring \<Rightarrow> nat \<Rightarrow> jsstring \<Rightarrow> jsstring) \<Rightarrow> jsstring \<Rightarrow> jsstring" where
  "replaceAll_leading f str = replace_leading f str True 0 str"

section \<open>Indent\<close>

text \<open>
  The replacer of \<^verbatim>\<open>indent\<close>: \<^verbatim>\<open>(leading, offset, str) => ...\<close>. As in the
  source, \<open>offset\<close> is an index into the slice \<open>str\<close>, and it is compared with
  \<open>line_end\<close>, an index into the whole value.
\<close>

definition indent_replacer :: "IndentConfig \<Rightarrow> nat \<Rightarrow> jsstring \<Rightarrow> nat \<Rightarrow> jsstring \<Rightarrow> jsstring" where
  "indent_replacer config line_end leading offset str =
     (if char_at str offset = Some LF \<or> char_at str offset = Some CR \<or> offset = line_end
      then leading
      else
        let tab_count = 1 + trunc_div (int (countLeadingSpaces leading 0 (tabSize config)))
                                      (int (tabSize config))
        in if insertSpaces config then repeat SP (nat (tab_count * int (tabSize config)))
           else repeat TAB (nat tab_count))"

text \<open>The test that selects the rewriting of whole lines.\<close>

definition select_both_ends :: "jsstring \<Rightarrow> nat \<Rightarrow> nat \<Rightarrow> bool" where
  "select_both_ends str start end' =
     (let start_at_line_start = (start = 0 \<or> char_at str (start - 1) = Some LF);
          end_at_line_end = (end' = length str \<or> char_at str end' = Some LF
                             \<or> char_at str end' = Some CR)
      in start \<noteq> end' \<and> start_at_line_start \<and> end_at_line_end)"

text \<open>
  The padding of the other branch, \<^verbatim>\<open>tabSize - ((start - line_start) % tabSize)\<close>.
  With a tab size of \<open>0\<close> the remainder is not a number, and \<^verbatim>\<open>" ".repeat\<close>
  of it is the empty string.
\<close>

definition padding :: "nat \<Rightarrow> nat \<Rightarrow> nat \<Rightarrow> nat" where
  "padding tab start line_start =
     (if tab = 0 then 0 else tab - ((start - line_start) mod tab))"

definition indent :: "IndentConfig \<Rightarrow> textarea \<Rightarrow> dom_error + textarea" where
  "indent config input =
     (let start = selectionStart input;
          end' = selectionEnd input;
          str = text_value input;
          line_start = getLineStart str start;
          line_end = getLineEnd str end'
      in if select_both_ends str start end' \<or> isMultiLine str start end' then
           (case setRangeText
                   (replaceAll_leading (indent_replacer config line_end) (slice_js str line_start line_end))
                   line_start line_end Preserve input of
              Inl e \<Rightarrow> Inl e
            | Inr input' \<Rightarrow> Inr (dispatchEvent input'))
         else
           (case setRangeText
                   (if insertSpaces config then repeat SP (padding (tabSize config) start line_start)
                    else [TAB])
                   start end' End input of
              Inl e \<Rightarrow> Inl e
            | Inr input' \<Rightarrow> Inr (dispatchEvent input')))"

section \<open>Outdent\<close>

text \<open>The replacer of \<^verbatim>\<open>outdent\<close>: \<^verbatim>\<open>(leading) => ...\<close>.\<close>

definition outdent_replacer :: "IndentConfig \<Rightarrow> jsstring \<Rightarrow> nat \<Rightarrow> jsstring \<Rightarrow> jsstring" where
  "outdent_replacer config leading offset str =
     (let tab_count = trunc_div (int (countLeadingSpaces leading 0 (tabSize config)) - int (tabSize config))
                                (int (tabSize config))
      in if tab_count \<le> 0 then []
         else if insertSpaces config then repeat SP (nat (tab_count * int (tabSize config)))
         else repeat TAB (nat tab_count))"

definition outdent :: "IndentConfig \<Rightarrow> textarea \<Rightarrow> dom_error + textarea" where
  "outdent config input =
     (let start = selectionStart input;
          end' = selectionEnd input;
          str = text_value input;
          line_start = getLineStart str start;
          line_end = getLineEnd str end';
          value_slice = slice_js str line_start line_end;
          replacement = replaceAll_leading (outdent_replacer config) value_slice
      in if replacement = value_slice then Inr input
         else
           (case setRangeText replacement line_start line_end Preserve input of
              Inl e \<Rightarrow> Inl e
            | Inr input' \<Rightarrow> Inr (dispatchEvent input')))"

section \<open>Lines of a text\<close>

text \<open>
  The lines of a text as the pattern's \<^verbatim>\<open>^\<close> sees them: a line ends at a line
  terminator, and a new one (possibly empty) starts just after it. The
  terminators are not part of the lines.
\<close>

fun lines_of :: "jsstring \<Rightarrow> jsstring list" where
  "lines_of [] = [[]]"
| "lines_of (c # cs) =
     (if is_line_terminator c then [] # lines_of cs
      else (c # hd (lines_of cs)) # tl (lines_of cs))"


text \<open>
  The condition for rewriting whole lines as the specification words it, with
  the line feed looked for in the open interval: at an index strictly between
  \<open>start\<close> and \<open>end\<close>.
\<close>

definition block_mode_as_stated :: "jsstring \<Rightarrow> nat \<Rightarrow> nat \<Rightarrow> bool" where
  "block_mode_as_stated str start end' =
     ((start \<noteq> end' \<and> (start = 0 \<or> char_at str (start - 1) = Some LF)
        \<and> (end' = length str \<or> char_at str end' = Some LF \<or> char_at str end' = Some CR))
      \<or> (\<exists>i \<in> set [Suc start..<end']. char_at str i = Some LF))"

section \<open>Facts about the line utilities\<close>

lemma getLineStart_le: "getLineStart str i \<le> i"
  by (induction i) auto

lemma scan_line_end_ge: "index \<le> scan_line_end str index"
proof (induction str index rule: scan_line_end.induct)
  case (1 str index)
  show ?case
  proof (cases "index < length str \<and> char_at str index \<noteq> Some LF \<and> char_at str index \<noteq> Some CR")
    case True
    with 1 have "Suc index \<le> scan_line_end str (Suc index)" by simp
    with True show ?thesis by (subst scan_line_end.simps) simp
  next
    case False
    then show ?thesis by (subst scan_line_end.simps) auto
  qed
qed

lemma scan_line_end_le: "index \<le> length str \<Longrightarrow> scan_line_end str index \<le> length str"
proof (induction str index rule: scan_line_end.induct)
  case (1 str index)
  show ?case
  proof (cases "index < length str \<and> char_at str index \<noteq> Some LF \<and> char_at str index \<noteq> Some CR")
    case True
    with 1 have "scan_line_end str (Suc index) \<le> length str" by simp
    with True show ?thesis by (subst scan_line_end.simps) simp
  next
    case False
    with 1(2) show ?thesis by (subst scan_line_end.simps) auto
  qed
qed

lemma getLineEnd_le: "index \<le> length str \<Longrightarrow> getLineEnd str index \<le> length str"
  by (auto simp: getLineEnd_def scan_line_end_le)

lemma getLineEnd_ge: "index - 1 \<le> getLineEnd str index"
  using scan_line_end_ge [of index str] by (auto simp: getLineEnd_def)

text \<open>The loop of \<^verbatim>\<open>isMultiLine\<close> finds a line feed at an index from \<open>s\<close> up to,
  but not including, \<open>e\<close>.\<close>

lemma isMultiLine_iff:
  "isMultiLine str s e \<longleftrightarrow> (\<exists>i. s \<le> i \<and> i < e \<and> char_at str i = Some LF)"
proof (induction str s e rule: isMultiLine.induct)
  case (1 str i e)
  show ?case
  proof (cases "i < e")
    case False
    then show ?thesis by (subst isMultiLine.simps) auto
  next
    case True
    show ?thesis
    proof (cases "char_at str i = Some LF")
      case True
      with \<open>i < e\<close> show ?thesis by (subst isMultiLine.simps) auto
    next
      case False
      with True 1 have IH: "isMultiLine str (Suc i) e \<longleftrightarrow> (\<exists>j. Suc i \<le> j \<and> j < e \<and> char_at str j = Some LF)"
        by simp
      have "(\<exists>j. Suc i \<le> j \<and> j < e \<and> char_at str j = Some LF) \<longleftrightarrow> (\<exists>j. i \<le> j \<and> j < e \<and> char_at str j = Some LF)"
        using False by (metis Suc_leD Suc_leI le_neq_implies_less)
      with IH True False show ?thesis by (subst isMultiLine.simps) simp
    qed
  qed
qed

lemma count_loop_Nil: "count_loop [] tab i count = count"
  by (subst count_loop.simps) simp

lemma outdent_replacer_Nil: "outdent_replacer config [] offset str = []"
  by (simp add: outdent_replacer_def countLeadingSpaces_def count_loop_Nil trunc_div_def Let_def sgn_if)

lemma replaceAll_leading_Nil: "replaceAll_leading f [] = f [] 0 []"
  by (simp add: replaceAll_leading_def)

lemma slice_js_empty: "b \<le> a \<Longrightarrow> slice_js str a b = []"
  by (simp add: slice_js_def)

text \<open>In the branch that rewrites whole lines the range is never reversed.\<close>

lemma block_mode_range:
  assumes "select_both_ends str s e \<or> isMultiLine str s e" "s \<le> e"
  shows "getLineStart str s \<le> getLineEnd str e"
proof -
  from assms have "s < e"
    by (auto simp: select_both_ends_def isMultiLine_iff Let_def)
  then have "s \<le> e - 1" by simp
  with getLineStart_le [of str s] getLineEnd_ge [of e str] show ?thesis by linarith
qed

lemma setRangeText_ok:
  assumes "a \<le> b" "b \<le> length (text_value input)"
  shows "\<exists>input'. setRangeText r a b mode input = Inr input'
     \<and> text_value input' = take a (text_value input) @ r @ drop b (text_value input)
     \<and> effects input' = effects input @ [SetRangeText r a b mode]"
  using assms by (simp add: setRangeText_def Let_def min_def)

section \<open>Facts about counting and lines\<close>

lemma blank_not_terminator: "is_blank c \<Longrightarrow> \<not> is_line_terminator c"
  by (auto simp: is_blank_def is_line_terminator_def)

lemma count_loop_acc: "count_loop str tab i n = n + count_loop str tab i 0"
proof (induction "length str - i" arbitrary: i n)
  case 0
  then have "\<not> i < length str" by simp
  then show ?case
    by (simp add: count_loop.simps [of str tab i n] count_loop.simps [of str tab i 0])
next
  case (Suc k)
  then have lt: "i < length str" and k: "k = length str - Suc i" by simp_all
  have a: "count_loop str tab (Suc i) m = m + count_loop str tab (Suc i) 0" for m
    using Suc.hyps(1) [OF k] .
  show ?case
    using lt a [of "n + 1"] a [of "n + tab"] a [of 1] a [of tab]
    by (simp add: count_loop.simps [of str tab i n] count_loop.simps [of str tab i 0])
qed

lemma count_loop_Cons: "count_loop (c # cs) tab (Suc i) n = count_loop cs tab i n"
proof (induction "length cs - i" arbitrary: i n)
  case 0
  then have "\<not> i < length cs" by simp
  then show ?case
    by (simp add: count_loop.simps [of "c # cs" tab "Suc i" n] count_loop.simps [of cs tab i n])
next
  case (Suc k)
  then have lt: "i < length cs" and k: "k = length cs - Suc i" by simp_all
  have a: "count_loop (c # cs) tab (Suc (Suc i)) m = count_loop cs tab (Suc i) m" for m
    using Suc.hyps(1) [OF k] .
  have b: "char_at (c # cs) (Suc i) = char_at cs i" by (simp add: char_at_def)
  show ?case
    using lt a b
    by (simp add: count_loop.simps [of "c # cs" tab "Suc i" n] count_loop.simps [of cs tab i n])
qed

lemma countLeadingSpaces_Nil [simp]: "countLeadingSpaces [] 0 tab = 0"
  by (simp add: countLeadingSpaces_def count_loop.simps [of "[]"])

lemma countLeadingSpaces_Cons [simp]:
  "countLeadingSpaces (c # cs) 0 tab =
     (if c = SP then 1 + countLeadingSpaces cs 0 tab
      else if c = TAB then tab + countLeadingSpaces cs 0 tab else 0)"
  using count_loop_acc [of cs tab 0 1] count_loop_acc [of cs tab 0 tab]
  by (simp add: countLeadingSpaces_def count_loop.simps [of "c # cs" tab 0 0] count_loop_Cons char_at_def)

lemma countLeadingSpaces_drop: "countLeadingSpaces str start tab = countLeadingSpaces (drop start str) 0 tab"
proof (induction start arbitrary: str)
  case 0
  then show ?case by simp
next
  case (Suc k)
  show ?case
  proof (cases str)
    case Nil
    then show ?thesis by (simp add: countLeadingSpaces_def count_loop_Nil)
  next
    case (Cons c cs)
    with Suc [of cs] show ?thesis by (simp add: countLeadingSpaces_def count_loop_Cons)
  qed
qed

lemma countLeadingSpaces_append:
  "\<forall>c \<in> set xs. is_blank c \<Longrightarrow>
   countLeadingSpaces (xs @ ys) 0 tab = countLeadingSpaces xs 0 tab + countLeadingSpaces ys 0 tab"
  by (induction xs) (auto simp: is_blank_def)

lemma countLeadingSpaces_takeWhile:
  "countLeadingSpaces (takeWhile is_blank str) 0 tab = countLeadingSpaces str 0 tab"
  by (induction str) (auto simp: is_blank_def)

lemma countLeadingSpaces_dropWhile: "countLeadingSpaces (dropWhile is_blank str) 0 tab = 0"
  by (induction str) (auto simp: is_blank_def)

lemma countLeadingSpaces_replicate_SP: "countLeadingSpaces (replicate n SP) 0 tab = n"
  by (induction n) auto

lemma countLeadingSpaces_replicate_TAB: "countLeadingSpaces (replicate n TAB) 0 tab = n * tab"
  by (induction n) auto

lemma countLeadingSpaces_zero_iff:
  "0 < tab \<Longrightarrow> countLeadingSpaces str 0 tab = 0 \<longleftrightarrow> takeWhile is_blank str = []"
  by (cases str) (auto simp: is_blank_def)


lemma lines_of_no_terminator:
  "\<forall>c \<in> set xs. \<not> is_line_terminator c \<Longrightarrow> lines_of xs = [xs]"
  by (induction xs) auto

lemma lines_of_append_terminator:
  "\<forall>c \<in> set xs. \<not> is_line_terminator c \<Longrightarrow> is_line_terminator t \<Longrightarrow>
   lines_of (xs @ t # ys) = xs # lines_of ys"
  by (induction xs) auto

section \<open>Facts about the replacement of leading runs\<close>

lemma takeWhile_line_dropWhile_blank:
  "takeWhile not_terminator (dropWhile is_blank rest) = dropWhile is_blank (takeWhile not_terminator rest)"
  by (induction rest) (auto dest: blank_not_terminator)

lemma dropWhile_line_dropWhile_blank:
  "dropWhile not_terminator (dropWhile is_blank rest) = dropWhile not_terminator rest"
  by (induction rest) (auto dest: blank_not_terminator)

lemma takeWhile_blank_line:
  "takeWhile is_blank (takeWhile not_terminator rest) = takeWhile is_blank rest"
  by (induction rest) (auto dest: blank_not_terminator)

lemma length_blank_line:
  "length (takeWhile is_blank rest) + length (dropWhile is_blank (takeWhile not_terminator rest))
     = length (takeWhile not_terminator rest)"
  by (induction rest) (auto dest: blank_not_terminator)

lemma dropWhile_Cons_ex: "dropWhile P xs = y # ys \<Longrightarrow> \<exists>x \<in> set xs. \<not> P x"
  using dropWhile_eq_Nil_conv [of P xs] by auto

declare replace_leading.simps(1) [simp del]

lemma replace_leading_copy:
  "replace_leading f str False off rest =
     takeWhile not_terminator rest
     @ (case dropWhile not_terminator rest of
          [] \<Rightarrow> []
        | t # rest' \<Rightarrow> t # replace_leading f str True (Suc (off + length (takeWhile not_terminator rest))) rest')"
  by (induction rest arbitrary: off) (auto split: list.splits dest: dropWhile_Cons_ex)

lemma replace_leading_line:
  "replace_leading f str True off rest =
     f (takeWhile is_blank rest) off str
     @ dropWhile is_blank (takeWhile not_terminator rest)
     @ (case dropWhile not_terminator rest of
          [] \<Rightarrow> []
        | t # rest' \<Rightarrow> t # replace_leading f str True (Suc (off + length (takeWhile not_terminator rest))) rest')"
proof -
  have len: "off + length (takeWhile is_blank rest) + length (dropWhile is_blank (takeWhile not_terminator rest))
      = off + length (takeWhile not_terminator rest)"
    using length_blank_line [of rest] by simp
  have "replace_leading f str False (off + length (takeWhile is_blank rest)) (dropWhile is_blank rest) =
     dropWhile is_blank (takeWhile not_terminator rest)
     @ (case dropWhile not_terminator rest of
          [] \<Rightarrow> []
        | t # rest' \<Rightarrow> t # replace_leading f str True (Suc (off + length (takeWhile not_terminator rest))) rest')"
    by (auto simp: replace_leading_copy [of f str "off + length (takeWhile is_blank rest)"]
        takeWhile_line_dropWhile_blank dropWhile_line_dropWhile_blank len
        split: list.splits dest: dropWhile_Cons_ex)
  then show ?thesis
    by (simp add: replace_leading.simps(1))
qed

text \<open>
  The rewriting works line by line: if at every offset \<open>off\<close> the text the
  replacer returns for the run there consists of spaces and tabs, and the line
  starting there is related by \<open>R\<close> to that text followed by the rest of the
  line, then the lines before and after are related by \<open>R\<close>, one by one.
\<close>

lemma drop_line_step:
  assumes "dropWhile not_terminator (drop off str) = t # rest'"
  shows "is_line_terminator t"
    and "drop off str = takeWhile not_terminator (drop off str) @ t # rest'"
    and "rest' = drop (Suc (off + length (takeWhile not_terminator (drop off str)))) str"
    and "Suc (off + length (takeWhile not_terminator (drop off str))) \<le> length str"
proof -
  let ?l = "takeWhile not_terminator (drop off str)"
  from assms show "is_line_terminator t"
    using hd_dropWhile [of not_terminator "drop off str"] by auto
  show split: "drop off str = ?l @ t # rest'"
    using takeWhile_dropWhile_id [of not_terminator "drop off str"] assms by simp
  have "drop (Suc (length ?l)) (drop off str) = rest'"
    by (subst split) simp
  then show "rest' = drop (Suc (off + length ?l)) str"
    by (simp add: add.commute)
  have "length (drop off str) = length ?l + Suc (length rest')"
    by (subst split) simp
  then show "Suc (off + length ?l) \<le> length str" by simp
qed

lemma lines_of_replace_leading:
  assumes good: "\<And>off. off \<le> length str \<Longrightarrow>
        (\<forall>c \<in> set (f (takeWhile is_blank (drop off str)) off str). is_blank c)
      \<and> R (takeWhile not_terminator (drop off str))
           (f (takeWhile is_blank (drop off str)) off str
              @ dropWhile is_blank (takeWhile not_terminator (drop off str)))"
    and "off \<le> length str"
  shows "list_all2 R (lines_of (drop off str)) (lines_of (replace_leading f str True off (drop off str)))"
  using assms(2)
proof (induction "length str - off" arbitrary: off rule: less_induct)
  case less
  define rest where "rest = drop off str"
  define l where "l = takeWhile not_terminator rest"
  define out where "out = f (takeWhile is_blank rest) off str"
  have out_blank: "\<forall>c \<in> set out. is_blank c" and R: "R l (out @ dropWhile is_blank l)"
    using good [OF less.prems] by (simp_all add: out_def l_def rest_def)
  have clean: "\<forall>c \<in> set (out @ dropWhile is_blank l). \<not> is_line_terminator c"
  proof
    fix c assume "c \<in> set (out @ dropWhile is_blank l)"
    then consider "c \<in> set out" | "c \<in> set l"
      using set_dropWhileD [of c is_blank l] by auto
    then show "\<not> is_line_terminator c"
    proof cases
      case 1
      with out_blank show ?thesis by (auto dest: blank_not_terminator)
    next
      case 2
      then show ?thesis unfolding l_def by (auto dest: set_takeWhileD)
    qed
  qed
  have l_clean: "\<forall>c \<in> set l. \<not> is_line_terminator c"
    unfolding l_def by (auto dest: set_takeWhileD)
  show ?case
  proof (cases "dropWhile not_terminator rest")
    case Nil
    from Nil have "\<forall>x \<in> set rest. not_terminator x"
      by (simp only: dropWhile_eq_Nil_conv)
    then have "takeWhile not_terminator rest = rest"
      by (simp only: takeWhile_eq_all_conv)
    then have "rest = l" unfolding l_def by (rule sym)
    moreover have "replace_leading f str True off rest = out @ dropWhile is_blank l"
      by (simp add: replace_leading_line [of f str off rest] Nil out_def l_def)
    ultimately show ?thesis
      using R clean l_clean
      by (simp add: rest_def [symmetric] lines_of_no_terminator)
  next
    case (Cons t rest')
    note step = drop_line_step [OF Cons [unfolded rest_def]]
    let ?off' = "Suc (off + length l)"
    have rest': "rest' = drop ?off' str" and le': "?off' \<le> length str"
      using step(3,4) by (simp_all add: l_def rest_def)
    have t: "is_line_terminator t" by (rule step(1))
    have split: "rest = l @ t # rest'"
      using step(2) by (simp add: l_def rest_def)
    have "length str - ?off' < length str - off" using le' by simp
    from less.hyps [OF this le']
    have IH: "list_all2 R (lines_of rest') (lines_of (replace_leading f str True ?off' rest'))"
      by (simp add: rest' [symmetric])
    have "replace_leading f str True off rest
        = (out @ dropWhile is_blank l) @ t # replace_leading f str True ?off' rest'"
      by (simp add: replace_leading_line [of f str off rest] Cons out_def l_def)
    then have "lines_of (replace_leading f str True off rest)
        = (out @ dropWhile is_blank l) # lines_of (replace_leading f str True ?off' rest')"
      using clean t by (simp only: lines_of_append_terminator)
    moreover have "lines_of rest = l # lines_of rest'"
      by (subst split) (simp only: lines_of_append_terminator [OF l_clean t])
    ultimately show ?thesis
      using R IH by (simp add: rest_def [symmetric])
  qed
qed


section \<open>Facts about the two replacers\<close>

lemma trunc_div_nat: "trunc_div (int a) (int b) = int (a div b)"
  by (simp add: trunc_div_def sgn_if zdiv_int)

lemma trunc_div_neg: "0 < d \<Longrightarrow> 0 < b \<Longrightarrow> trunc_div (- int d) (int b) = - int (d div b)"
  by (simp add: trunc_div_def zdiv_int)

lemma outdent_tab_count:
  "nat (trunc_div (int w - int tab) (int tab)) = w div tab - 1"
  "trunc_div (int w - int tab) (int tab) \<le> 0 \<longleftrightarrow> w div tab - 1 = 0"
proof -
  consider (zero) "tab = 0" | (ge) "0 < tab" "tab \<le> w" | (less) "0 < tab" "w < tab" by linarith
  then have "nat (trunc_div (int w - int tab) (int tab)) = w div tab - 1
      \<and> (trunc_div (int w - int tab) (int tab) \<le> 0 \<longleftrightarrow> w div tab - 1 = 0)"
  proof cases
    case zero
    then show ?thesis by (simp add: trunc_div_def)
  next
    case ge
    then have e: "int w - int tab = int (w - tab)" by (simp add: of_nat_diff)
    from ge have d: "(w - tab) div tab = w div tab - 1"
      by (simp add: le_div_geq)
    have tc: "trunc_div (int w - int tab) (int tab) = int (w div tab - 1)"
      unfolding e d [symmetric] by (rule trunc_div_nat)
    show ?thesis unfolding tc by simp
  next
    case less
    then have "int (tab - w) = int tab - int w" by (simp add: of_nat_diff)
    then have eq: "int w - int tab = - int (tab - w)" by (simp only: minus_diff_eq)
    from less have pos: "0 < tab - w" by simp
    have tc: "trunc_div (int w - int tab) (int tab) = - int ((tab - w) div tab)"
      unfolding eq using pos less(1) by (rule trunc_div_neg)
    from less have z: "w div tab = 0" by simp
    show ?thesis unfolding tc z by simp
  qed
  then show "nat (trunc_div (int w - int tab) (int tab)) = w div tab - 1"
    and "trunc_div (int w - int tab) (int tab) \<le> 0 \<longleftrightarrow> w div tab - 1 = 0" by simp_all
qed

text \<open>The replacer of \<open>outdent\<close> in closed form: the run is replaced by
  \<open>w div tabSize - 1\<close> tab stops, none when that is not positive.\<close>

lemma outdent_replacer_eq:
  "outdent_replacer config leading offset str =
     (let n = countLeadingSpaces leading 0 (tabSize config) div tabSize config - 1
      in if insertSpaces config then replicate (n * tabSize config) SP else replicate n TAB)"
proof -
  let ?w = "countLeadingSpaces leading 0 (tabSize config)"
  let ?tc = "trunc_div (int ?w - int (tabSize config)) (int (tabSize config))"
  show ?thesis
  proof (cases "?tc \<le> 0")
    case True
    then have "?w div tabSize config - 1 = 0" by (simp only: outdent_tab_count(2))
    with True show ?thesis by (simp add: outdent_replacer_def Let_def)
  next
    case False
    then have "nat (?tc * int (tabSize config)) = nat ?tc * tabSize config"
      by (simp add: nat_mult_distrib)
    with False show ?thesis
      by (simp add: outdent_replacer_def Let_def repeat_def outdent_tab_count(1))
  qed
qed


lemma outdent_replacer_blank: "\<forall>c \<in> set (outdent_replacer config leading offset str). is_blank c"
  by (simp add: outdent_replacer_eq Let_def is_blank_def)

lemma outdent_replacer_width:
  "countLeadingSpaces (outdent_replacer config leading offset str) 0 (tabSize config)
     = (countLeadingSpaces leading 0 (tabSize config) div tabSize config - 1) * tabSize config"
  by (simp add: outdent_replacer_eq Let_def countLeadingSpaces_replicate_SP countLeadingSpaces_replicate_TAB)



lemma dropWhile_blank_append:
  "\<forall>c \<in> set out. is_blank c \<Longrightarrow> dropWhile is_blank (out @ xs) = dropWhile is_blank xs"
  by (induction out) auto

lemma width_new_line:
  "\<forall>c \<in> set out. is_blank c \<Longrightarrow>
   countLeadingSpaces (out @ dropWhile is_blank l) 0 tab = countLeadingSpaces out 0 tab"
  by (simp add: countLeadingSpaces_append countLeadingSpaces_dropWhile)



section \<open>What the two operations do to the lines of the range\<close>




lemma outdent_lines:
  "list_all2 (\<lambda>l l'. dropWhile is_blank l' = dropWhile is_blank l
        \<and> countLeadingSpaces l' 0 (tabSize config)
            = (countLeadingSpaces l 0 (tabSize config) div tabSize config - 1) * tabSize config)
     (lines_of str) (lines_of (replaceAll_leading (outdent_replacer config) str))"
proof -
  let ?R = "\<lambda>l l'. dropWhile is_blank l' = dropWhile is_blank l
        \<and> countLeadingSpaces l' 0 (tabSize config)
            = (countLeadingSpaces l 0 (tabSize config) div tabSize config - 1) * tabSize config"
  have "list_all2 ?R (lines_of (drop 0 str))
      (lines_of (replace_leading (outdent_replacer config) str True 0 (drop 0 str)))"
  proof (rule lines_of_replace_leading)
    fix off
    let ?rest = "drop off str"
    let ?out = "outdent_replacer config (takeWhile is_blank ?rest) off str"
    have b: "\<forall>c \<in> set ?out. is_blank c" by (rule outdent_replacer_blank)
    have "countLeadingSpaces (takeWhile is_blank ?rest) 0 (tabSize config)
        = countLeadingSpaces (takeWhile not_terminator ?rest) 0 (tabSize config)"
      by (simp add: countLeadingSpaces_takeWhile [of "takeWhile not_terminator ?rest", symmetric]
          takeWhile_blank_line)
    with b show "(\<forall>c \<in> set ?out. is_blank c)
        \<and> ?R (takeWhile not_terminator ?rest) (?out @ dropWhile is_blank (takeWhile not_terminator ?rest))"
      by (simp add: dropWhile_blank_append width_new_line outdent_replacer_width)
  qed simp
  then show ?thesis by (simp add: replaceAll_leading_def)
qed




lemma take_slice_drop:
  "a \<le> b \<Longrightarrow> take a str @ slice_js str a b @ drop b str = str"
proof -
  assume "a \<le> b"
  then have "take a str @ take (b - a) (drop a str) = take b str"
    using take_add [of a "b - a" str] by simp
  then show ?thesis by (simp add: slice_js_def append_assoc [symmetric] del: append_assoc)
qed

text \<open>The value after \<open>outdent\<close>: the range is replaced by the rebuilt text,
  whether by \<^verbatim>\<open>setRangeText\<close> or, when nothing changes, by doing nothing.\<close>

lemma outdent_value:
  assumes "selectionEnd input \<le> length (text_value input)"
  shows "\<exists>input'. outdent config input = Inr input'
     \<and> text_value input' =
         take (getLineStart (text_value input) (selectionStart input)) (text_value input)
         @ replaceAll_leading (outdent_replacer config)
             (slice_js (text_value input) (getLineStart (text_value input) (selectionStart input))
                (getLineEnd (text_value input) (selectionEnd input)))
         @ drop (max (getLineStart (text_value input) (selectionStart input))
                     (getLineEnd (text_value input) (selectionEnd input))) (text_value input)"
proof -
  define ls where "ls = getLineStart (text_value input) (selectionStart input)"
  define le where "le = getLineEnd (text_value input) (selectionEnd input)"
  define sl where "sl = slice_js (text_value input) ls le"
  define r where "r = replaceAll_leading (outdent_replacer config) sl"
  have le_len: "le \<le> length (text_value input)"
    unfolding le_def using assms by (rule getLineEnd_le)
  have out: "outdent config input =
      (if r = sl then Inr input
       else case setRangeText r ls le Preserve input of Inl e \<Rightarrow> Inl e | Inr input' \<Rightarrow> Inr (dispatchEvent input'))"
    by (simp add: outdent_def Let_def ls_def le_def sl_def r_def)
  have rev: "r = sl" if "\<not> ls \<le> le"
  proof -
    from that have "sl = []" by (simp add: sl_def slice_js_empty)
    then show ?thesis by (simp add: r_def replaceAll_leading_Nil outdent_replacer_Nil)
  qed
  have "\<exists>input'. outdent config input = Inr input'
     \<and> text_value input' = take ls (text_value input) @ r @ drop (max ls le) (text_value input)"
  proof (cases "r = sl")
    case True
    have "take ls (text_value input) @ sl @ drop (max ls le) (text_value input) = text_value input"
    proof (cases "ls \<le> le")
      case True
      then show ?thesis by (simp add: sl_def take_slice_drop max_def)
    next
      case False
      then show ?thesis by (simp add: sl_def slice_js_empty max_def)
    qed
    with True out show ?thesis by simp
  next
    case False
    with rev have "ls \<le> le" by blast
    from setRangeText_ok [OF this le_len, of r Preserve]
    obtain input' where "setRangeText r ls le Preserve input = Inr input'"
      "text_value input' = take ls (text_value input) @ r @ drop le (text_value input)" by blast
    with False out \<open>ls \<le> le\<close> show ?thesis by (simp add: dispatchEvent_def max_def)
  qed
  then show ?thesis by (simp add: ls_def le_def sl_def r_def)
qed



lemma previous_tab_stop_bounds:
  fixes w tab :: nat
  shows "(w div tab - 1) * tab \<le> w"
    and "w - (w div tab - 1) * tab \<le> tab + w mod tab"
    and "tab dvd w \<Longrightarrow> w - (w div tab - 1) * tab \<le> tab"
proof -
  have split: "w = w div tab * tab + w mod tab" by simp
  have le: "(w div tab - 1) * tab \<le> w div tab * tab" by (simp add: mult_le_mono1)
  then show "(w div tab - 1) * tab \<le> w" using split by linarith
  have e: "w div tab * tab \<le> (w div tab - 1) * tab + tab"
    by (cases "w div tab") (simp_all add: algebra_simps)
  then show b: "w - (w div tab - 1) * tab \<le> tab + w mod tab" using split by linarith
  show "w - (w div tab - 1) * tab \<le> tab" if "tab dvd w"
  proof -
    from that have "w mod tab = 0" by (simp add: dvd_eq_mod_eq_0)
    with b show ?thesis by simp
  qed
qed


section \<open>Facts about the first line of the range\<close>

lemma char_at_append:
  "char_at (xs @ ys) i = (if i < length xs then char_at xs i else char_at ys (i - length xs))"
  by (auto simp: char_at_def nth_append)

lemma getLineStart_boundary:
  "getLineStart str i = 0 \<or> char_at str (getLineStart str i - 1) = Some LF"
  by (induction i) auto

lemma getLineStart_eq:
  assumes "a \<le> i" "a = 0 \<or> char_at str (a - 1) = Some LF"
    and "\<And>j. a \<le> j \<Longrightarrow> j < i \<Longrightarrow> char_at str j \<noteq> Some LF"
  shows "getLineStart str i = a"
  using assms
proof (induction i)
  case 0
  then show ?case by simp
next
  case (Suc i)
  show ?case
  proof (cases "a = Suc i")
    case True
    with Suc.prems(2) show ?thesis by simp
  next
    case False
    with Suc.prems(1) have "a \<le> i" by simp
    moreover from this Suc.prems(3) have "char_at str i \<noteq> Some LF" by simp
    moreover have "getLineStart str i = a"
      using \<open>a \<le> i\<close> Suc.prems(2) Suc.prems(3) by (intro Suc.IH) simp_all
    ultimately show ?thesis by simp
  qed
qed

text \<open>The forward scan of \<open>getLineEnd\<close> stops at the first line feed or carriage
  return, or at the end of the text.\<close>

lemma scan_line_end_takeWhile:
  "index \<le> length str \<Longrightarrow>
   scan_line_end str index = index + length (takeWhile not_line_break (drop index str))"
proof (induction "length str - index" arbitrary: index)
  case 0
  then have "drop index str = []" by simp
  with 0 show ?case by (simp add: scan_line_end.simps [of str index])
next
  case (Suc k)
  then have lt: "index < length str" by simp
  then have d: "drop index str = str ! index # drop (Suc index) str"
    by (simp add: Cons_nth_drop_Suc)
  show ?case
  proof (cases "str ! index \<noteq> LF \<and> str ! index \<noteq> CR")
    case True
    from Suc have "scan_line_end str (Suc index)
        = Suc index + length (takeWhile not_line_break (drop (Suc index) str))"
      by (intro Suc.hyps(1)) simp_all
    with True lt d show ?thesis
      by (simp add: scan_line_end.simps [of str index] char_at_def)
  next
    case False
    with lt d show ?thesis
      by (auto simp: scan_line_end.simps [of str index] char_at_def)
  qed
qed

lemma takeWhile_dropWhile_Nil: "takeWhile P (dropWhile P xs) = []"
  by (induction xs) auto

lemma takeWhile_blank_Nil_append:
  "takeWhile is_blank xs = [] \<Longrightarrow> takeWhile is_blank ys = [] \<Longrightarrow> takeWhile is_blank (xs @ ys) = []"
  by (cases xs) (auto split: if_splits)

lemma countLeadingSpaces_no_run: "takeWhile is_blank xs = [] \<Longrightarrow> countLeadingSpaces xs 0 tab = 0"
  using countLeadingSpaces_takeWhile [of xs tab] by simp

text \<open>The rebuilt text starts with what the replacer returns for the first run,
  and no space or tab follows it.\<close>

lemma replaceAll_leading_head:
  "\<exists>rest. replaceAll_leading f str = f (takeWhile is_blank str) 0 str @ rest
      \<and> takeWhile is_blank rest = []"
proof -
  let ?line = "dropWhile is_blank (takeWhile not_terminator str)"
  let ?more = "case dropWhile not_terminator str of
          [] \<Rightarrow> []
        | t # rest' \<Rightarrow> t # replace_leading f str True (Suc (0 + length (takeWhile not_terminator str))) rest'"
  have eq: "replaceAll_leading f str = f (takeWhile is_blank str) 0 str @ (?line @ ?more)"
    unfolding replaceAll_leading_def by (subst replace_leading_line) simp
  have "takeWhile is_blank ?line = []"
    by (rule takeWhile_dropWhile_Nil)
  moreover have "takeWhile is_blank ?more = []"
  proof (cases "dropWhile not_terminator str")
    case Nil
    show ?thesis unfolding Nil by simp
  next
    case (Cons t rest')
    then have "is_line_terminator t"
      using hd_dropWhile [of not_terminator str] by auto
    then have "\<not> is_blank t" by (auto dest: blank_not_terminator)
    with Cons show ?thesis by simp
  qed
  ultimately have "takeWhile is_blank (?line @ ?more) = []"
    by (rule takeWhile_blank_Nil_append)
  with eq show ?thesis by blast
qed

lemma getLineStart_no_line_feed:
  "getLineStart str i \<le> j \<Longrightarrow> j < i \<Longrightarrow> char_at str j \<noteq> Some LF"
proof (induction i)
  case 0
  then show ?case by simp
next
  case (Suc i)
  show ?case
  proof (cases "char_at str i = Some LF")
    case True
    with Suc.prems show ?thesis by simp
  next
    case False
    show ?thesis
    proof (cases "j = i")
      case True
      with False show ?thesis by simp
    next
      case ne: False
      with Suc.prems False have "getLineStart str i \<le> j" "j < i" by simp_all
      then show ?thesis by (rule Suc.IH)
    qed
  qed
qed

lemma takeWhile_append_no_run:
  "takeWhile P ys = [] \<Longrightarrow> takeWhile P (xs @ ys) = takeWhile P xs"
  by (induction xs) auto

text \<open>No space or tab stands at the offset \<open>getLineEnd\<close> returns.\<close>

lemma getLineEnd_stop:
  assumes "index \<le> length str"
  shows "takeWhile is_blank (drop (getLineEnd str index) str) = []"
proof (cases "index > 0 \<and> char_at str (index - 1) = Some LF")
  case True
  then have lt: "index - 1 < length str" and at: "str ! (index - 1) = LF"
    by (auto simp: char_at_def split: if_splits)
  from lt have "str ! (index - 1) # drop (Suc (index - 1)) str = drop (index - 1) str"
    by (rule Cons_nth_drop_Suc)
  then have "drop (index - 1) str = LF # drop (Suc (index - 1)) str"
    unfolding at by (rule sym)
  moreover have "getLineEnd str index = index - 1"
    using True by (simp add: getLineEnd_def)
  ultimately show ?thesis by (simp add: is_blank_def)
next
  case False
  let ?rest = "drop index str"
  from False have "getLineEnd str index = scan_line_end str index"
    by (auto simp: getLineEnd_def)
  then have "getLineEnd str index = index + length (takeWhile not_line_break ?rest)"
    by (simp only: scan_line_end_takeWhile [OF assms])
  then have d: "drop (getLineEnd str index) str = dropWhile not_line_break ?rest"
    by (simp add: dropWhile_eq_drop add.commute)
  show ?thesis
  proof (cases "dropWhile not_line_break ?rest")
    case Nil
    with d show ?thesis by simp
  next
    case (Cons t ts)
    then have "\<not> (t \<noteq> LF \<and> t \<noteq> CR)"
      using hd_dropWhile [of not_line_break ?rest] by auto
    then have "\<not> is_blank t" by (auto simp: is_blank_def)
    with d Cons show ?thesis by simp
  qed
qed

text \<open>
  Whenever the range is not reversed, \<open>outdent\<close> takes the line that starts at
  \<open>lineStart(start)\<close> from its width \<open>w\<close> to \<open>(w div tabSize - 1) * tabSize\<close>.
\<close>

lemma outdent_first_line:
  assumes len: "selectionEnd input \<le> length (text_value input)"
    and range: "getLineStart (text_value input) (selectionStart input)
              \<le> getLineEnd (text_value input) (selectionEnd input)"
  shows "\<exists>input'. outdent config input = Inr input'
       \<and> countLeadingSpaces (text_value input')
            (getLineStart (text_value input) (selectionStart input)) (tabSize config)
           = (countLeadingSpaces (text_value input)
                (getLineStart (text_value input) (selectionStart input)) (tabSize config)
              div tabSize config - 1) * tabSize config"
proof -
  define str where "str = text_value input"
  define ls where "ls = getLineStart str (selectionStart input)"
  define le where "le = getLineEnd str (selectionEnd input)"
  define sl where "sl = slice_js str ls le"
  define tail where "tail = drop le str"
  define new where "new = outdent_replacer config (takeWhile is_blank sl) 0 sl"
  have le_len: "le \<le> length str" unfolding le_def str_def using len by (rule getLineEnd_le)
  have range': "ls \<le> le" using range by (simp add: ls_def le_def str_def)
  have tail_head: "takeWhile is_blank tail = []"
    unfolding tail_def le_def using len [folded str_def] by (rule getLineEnd_stop)
  have "drop ls str = take (le - ls) (drop ls str) @ drop (le - ls) (drop ls str)"
    by (rule append_take_drop_id [symmetric])
  then have line: "drop ls str = sl @ tail"
    using range' by (simp add: sl_def slice_js_def tail_def)
  have w: "countLeadingSpaces str ls (tabSize config)
      = countLeadingSpaces (takeWhile is_blank sl) 0 (tabSize config)"
    using takeWhile_append_no_run [OF tail_head, of sl]
      countLeadingSpaces_takeWhile [of "sl @ tail" "tabSize config"]
    by (simp add: countLeadingSpaces_drop [of str ls] line)
  obtain more where r: "replaceAll_leading (outdent_replacer config) sl = new @ more"
      and more: "takeWhile is_blank more = []"
    using replaceAll_leading_head [of "outdent_replacer config" sl] by (auto simp: new_def)
  from outdent_value [OF len, of config]
  have "\<exists>input'. outdent config input = Inr input'
      \<and> text_value input' = take ls str @ (new @ more) @ tail"
    using range' by (simp add: str_def [symmetric] ls_def [symmetric] le_def [symmetric]
        sl_def [symmetric] r tail_def max_def)
  then obtain input' where out: "outdent config input = Inr input'"
    and v': "text_value input' = take ls str @ (new @ more) @ tail" by blast
  have "length (take ls str) = ls" using range' le_len by simp
  then have d: "drop ls (text_value input') = new @ more @ tail"
    by (simp add: v')
  have "takeWhile is_blank (more @ tail) = []"
    using more tail_head by (rule takeWhile_blank_Nil_append)
  then have "countLeadingSpaces (more @ tail) 0 (tabSize config) = 0"
    by (rule countLeadingSpaces_no_run)
  then have "countLeadingSpaces (new @ more @ tail) 0 (tabSize config)
      = (countLeadingSpaces (takeWhile is_blank sl) 0 (tabSize config) div tabSize config - 1)
          * tabSize config"
    by (simp add: new_def countLeadingSpaces_append outdent_replacer_blank outdent_replacer_width)
  then have "countLeadingSpaces (text_value input') ls (tabSize config)
      = (countLeadingSpaces str ls (tabSize config) div tabSize config - 1) * tabSize config"
    by (simp add: countLeadingSpaces_drop [of "text_value input'" ls] d w)
  with out show ?thesis
    by (auto simp: ls_def str_def)
qed

section \<open>Facts about indenting at a caret\<close>

lemma char_at_take: "i < n \<Longrightarrow> char_at (take n str) i = char_at str i"
  by (simp add: char_at_def)

text \<open>The text \<open>indent\<close> inserts at a caret: spaces and tabs only, never empty
  when the tab size is positive.\<close>

lemma caret_insertion:
  fixes c line_start :: nat
  assumes "0 < tabSize config"
  defines "ins \<equiv> (if insertSpaces config then repeat SP (padding (tabSize config) c line_start)
                    else [TAB])"
  shows "ins \<noteq> []" and "\<forall>x \<in> set ins. is_blank x"
    and "insertSpaces config \<longrightarrow> tabSize config dvd (c - line_start) \<Longrightarrow>
         countLeadingSpaces ins 0 (tabSize config) = tabSize config"
proof -
  have "0 < padding (tabSize config) c line_start"
    using assms(1) by (simp add: padding_def)
  then show "ins \<noteq> []" by (auto simp: ins_def repeat_def)
  show "\<forall>x \<in> set ins. is_blank x" by (simp add: ins_def repeat_def is_blank_def)
  show "countLeadingSpaces ins 0 (tabSize config) = tabSize config"
    if "insertSpaces config \<longrightarrow> tabSize config dvd (c - line_start)"
    using that assms(1)
    by (auto simp: ins_def repeat_def padding_def countLeadingSpaces_replicate_SP dvd_eq_mod_eq_0)
qed

text \<open>\<open>indent\<close> at a caret inserts that text at the caret and moves the caret
  after it; the caret stays on the line it was on, and \<open>lineEnd\<close> of the new
  caret is not before the start of that line.\<close>

lemma indent_at_caret:
  assumes caret: "selectionStart input = selectionEnd input"
    and len: "selectionEnd input \<le> length (text_value input)"
    and tab: "0 < tabSize config"
  defines "c \<equiv> selectionStart input"
  defines "ls \<equiv> getLineStart (text_value input) (selectionStart input)"
  defines "ins \<equiv> (if insertSpaces config
                    then repeat SP (padding (tabSize config) (selectionStart input)
                           (getLineStart (text_value input) (selectionStart input)))
                    else [TAB])"
  shows "\<exists>input'. indent config input = Inr input'
       \<and> text_value input' = take c (text_value input) @ ins @ drop c (text_value input)
       \<and> selectionStart input' = c + length ins
       \<and> selectionEnd input' = c + length ins
       \<and> getLineStart (text_value input') (selectionStart input') = ls
       \<and> ls \<le> getLineEnd (text_value input') (selectionEnd input')"
proof -
  define v where "v = text_value input"
  define v1 where "v1 = take c v @ ins @ drop c v"
  define c1 where "c1 = c + length ins"
  have c_len: "c \<le> length v" using len caret by (simp add: c_def v_def)
  have ls_c: "ls \<le> c" unfolding ls_def c_def by (rule getLineStart_le)
  have ins_ne: "ins \<noteq> []" and ins_blank: "\<forall>x \<in> set ins. is_blank x"
    unfolding ins_def using caret_insertion(1,2) [OF tab] by blast+
  have not_block: "\<not> (select_both_ends v c c \<or> isMultiLine v c c)"
    by (simp add: select_both_ends_def isMultiLine_iff Let_def)
  have "indent config input =
      (case setRangeText ins c c End input of Inl e \<Rightarrow> Inl e | Inr input' \<Rightarrow> Inr (dispatchEvent input'))"
    using not_block caret
    by (simp add: indent_def Let_def v_def c_def ins_def)
  then have ind: "\<exists>input'. indent config input = Inr input'
       \<and> text_value input' = v1 \<and> selectionStart input' = c1 \<and> selectionEnd input' = c1"
    using c_len
    by (simp add: setRangeText_def Let_def dispatchEvent_def v1_def c1_def v_def min_def)
  have at_old: "char_at v1 j = char_at v j" if "j < c" for j
    using that c_len by (simp add: v1_def char_at_append char_at_take)
  have at_ins: "char_at v1 j = Some (ins ! (j - c))" "is_blank (ins ! (j - c))"
    if "c \<le> j" "j < c1" for j
  proof -
    from that have idx: "j - c < length ins" by (simp add: c1_def)
    then have "char_at ins (j - c) = Some (ins ! (j - c))" by (simp add: char_at_def)
    moreover from that c_len idx have "char_at v1 j = char_at ins (j - c)"
      by (simp add: v1_def char_at_append)
    ultimately show "char_at v1 j = Some (ins ! (j - c))" by simp
    from idx ins_blank show "is_blank (ins ! (j - c))" by simp
  qed
  have not_LF: "\<not> is_blank LF" by (simp add: is_blank_def)
  have ls1: "getLineStart v1 c1 = ls"
  proof (rule getLineStart_eq)
    show "ls \<le> c1" using ls_c by (simp add: c1_def)
    show "ls = 0 \<or> char_at v1 (ls - 1) = Some LF"
    proof (cases "ls = 0")
      case True
      then show ?thesis by simp
    next
      case False
      then have "char_at v (ls - 1) = Some LF"
        using getLineStart_boundary [of v c] by (simp add: ls_def v_def c_def)
      moreover from False ls_c have "ls - 1 < c" by simp
      ultimately show ?thesis by (simp add: at_old)
    qed
    show "char_at v1 j \<noteq> Some LF" if "ls \<le> j" "j < c1" for j
    proof (cases "j < c")
      case True
      from that(1) True have "char_at v j \<noteq> Some LF"
        unfolding ls_def v_def c_def by (rule getLineStart_no_line_feed)
      with True show ?thesis by (simp add: at_old)
    next
      case False
      then have "c \<le> j" by simp
      from at_ins [OF this that(2)] not_LF show ?thesis by auto
    qed
  qed
  from ins_ne obtain n where "length ins = Suc n" by (cases ins) auto
  then have "c \<le> c1 - 1" "c1 - 1 < c1" by (simp_all add: c1_def)
  from at_ins [OF this] not_LF have "char_at v1 (c1 - 1) \<noteq> Some LF" by auto
  then have "getLineEnd v1 c1 = scan_line_end v1 c1" by (simp add: getLineEnd_def)
  then have "c1 \<le> getLineEnd v1 c1" by (simp add: scan_line_end_ge)
  with ls_c have range: "ls \<le> getLineEnd v1 c1" by (simp add: c1_def)
  from ind ls1 range show ?thesis
    by (auto simp: v1_def c1_def v_def)
qed

lemma div_le_one: "(x::nat) \<le> n \<Longrightarrow> 0 < n \<Longrightarrow> x div n \<le> 1"
  using div_le_mono [of x n n] by simp

section \<open>The claims\<close>

text \<open>
  C1 (as the code has it). For the buffer \<open>abc\<close> with the caret at offset 3, a tab
  size of 4 and spaces for tabs, \<open>indent\<close> pads to the next tab stop: the caret
  is at column 3, so one space is inserted; the buffer becomes \<open>abc\<close> followed
  by one space and the caret is left at offset 4.
\<close>

theorem indent_abc_next_tab_stop:
  "indent \<lparr>tabSize = 4, insertSpaces = True\<rparr>
     \<lparr>text_value = js ''abc'', selectionStart = 3, selectionEnd = 3, effects = []\<rparr>
   = Inr \<lparr>text_value = js ''abc '', selectionStart = 4, selectionEnd = 4,
          effects = [SetRangeText (js '' '') 3 3 End, InputEvent]\<rparr>"
  by code_simp

text \<open>
  C1 as stated (four spaces appended, caret at offset 7) does not hold: the
  resulting buffer is not \<open>abc\<close> followed by four spaces, and the caret is not
  at offset 7.
\<close>

theorem indent_abc_four_spaces_counterexample:
  "(case indent \<lparr>tabSize = 4, insertSpaces = True\<rparr>
           \<lparr>text_value = js ''abc'', selectionStart = 3, selectionEnd = 3, effects = []\<rparr> of
      Inl e \<Rightarrow> False
    | Inr input' \<Rightarrow> text_value input' \<noteq> js ''abc    '' \<and> selectionStart input' \<noteq> 7)"
  by code_simp

text \<open>
  C9. With an empty selection just after a line feed (the caret at the start of
  a line that is not the first), \<open>getLineStart\<close> returns the caret itself and
  \<open>getLineEnd\<close> returns the offset before it, so the slice is empty and
  \<open>outdent\<close> returns without rewriting and without an event: the text area is
  unchanged, whatever the leading whitespace of that line.
\<close>

theorem outdent_caret_after_newline:
  assumes "selectionStart input = selectionEnd input" "0 < selectionStart input"
    and "char_at (text_value input) (selectionStart input - 1) = Some LF"
  shows "getLineStart (text_value input) (selectionStart input) = selectionStart input
       \<and> getLineEnd (text_value input) (selectionEnd input) = selectionEnd input - 1
       \<and> slice_js (text_value input) (getLineStart (text_value input) (selectionStart input))
            (getLineEnd (text_value input) (selectionEnd input)) = []
       \<and> outdent config input = Inr input"
proof -
  obtain k where k: "selectionStart input = Suc k"
    using assms(2) by (cases "selectionStart input") auto
  have ls: "getLineStart (text_value input) (selectionStart input) = selectionStart input"
    using assms(3) k by simp
  have le: "getLineEnd (text_value input) (selectionEnd input) = selectionEnd input - 1"
    using assms by (simp add: getLineEnd_def)
  have sl: "slice_js (text_value input) (selectionStart input) (selectionEnd input - 1) = []"
    using assms(1) by (simp add: slice_js_empty)
  show ?thesis
    using ls le sl by (simp add: outdent_def Let_def replaceAll_leading_Nil outdent_replacer_Nil)
qed

theorem outdent_caret_after_newline_witness:
  "outdent \<lparr>tabSize = 4, insertSpaces = True\<rparr>
     \<lparr>text_value = js ''a'' @ [LF] @ js ''    b'', selectionStart = 2, selectionEnd = 2, effects = []\<rparr>
   = Inr \<lparr>text_value = js ''a'' @ [LF] @ js ''    b'', selectionStart = 2, selectionEnd = 2, effects = []\<rparr>"
  using outdent_caret_after_newline
    [of "\<lparr>text_value = js ''a'' @ [LF] @ js ''    b'', selectionStart = 2, selectionEnd = 2, effects = []\<rparr>"
        "\<lparr>tabSize = 4, insertSpaces = True\<rparr>"]
  by (simp add: char_at_def js_def)

text \<open>
  C4. When \<open>indent\<close> does not rewrite whole lines, it replaces the selection
  from \<open>start\<close> to \<open>end\<close> by \<open>tabSize - ((start - lineStart) mod tabSize)\<close> spaces
  if spaces are inserted, and by one tab character otherwise; the selection
  becomes empty, just after the inserted text, and one event is dispatched.
\<close>

theorem indent_caret_mode:
  assumes "selectionStart input \<le> selectionEnd input"
    and "selectionEnd input \<le> length (text_value input)"
    and "0 < tabSize config"
    and "\<not> (select_both_ends (text_value input) (selectionStart input) (selectionEnd input)
            \<or> isMultiLine (text_value input) (selectionStart input) (selectionEnd input))"
  shows "indent config input =
     (let start = selectionStart input;
          replacement =
            (if insertSpaces config
             then replicate (tabSize config - (start - getLineStart (text_value input) start) mod tabSize config) SP
             else [TAB])
      in Inr (input\<lparr>text_value := take start (text_value input) @ replacement
                                      @ drop (selectionEnd input) (text_value input),
                    selectionStart := start + length replacement,
                    selectionEnd := start + length replacement,
                    effects := effects input
                       @ [SetRangeText replacement start (selectionEnd input) End, InputEvent]\<rparr>))"
  using assms
  by (simp add: indent_def Let_def setRangeText_def dispatchEvent_def padding_def repeat_def min_def)

theorem indent_caret_mode_witness:
  "indent \<lparr>tabSize = 4, insertSpaces = True\<rparr>
     \<lparr>text_value = js ''ab cd'', selectionStart = 1, selectionEnd = 3, effects = []\<rparr>
   = Inr \<lparr>text_value = js ''a   cd'', selectionStart = 4, selectionEnd = 4,
          effects = [SetRangeText (js ''   '') 1 3 End, InputEvent]\<rparr>"
proof -
  let ?input = "\<lparr>text_value = js ''ab cd'', selectionStart = 1, selectionEnd = 3, effects = []\<rparr>"
  let ?config = "\<lparr>tabSize = 4, insertSpaces = True\<rparr>"
  have a: "selectionStart ?input \<le> selectionEnd ?input" by simp
  have b: "selectionEnd ?input \<le> length (text_value ?input)" by (simp add: js_def)
  have c: "0 < tabSize ?config" by simp
  have d: "\<not> (select_both_ends (text_value ?input) (selectionStart ?input) (selectionEnd ?input)
            \<or> isMultiLine (text_value ?input) (selectionStart ?input) (selectionEnd ?input))"
    by code_simp
  have "indent ?config ?input = Inr \<lparr>text_value = js ''a   cd'', selectionStart = 4, selectionEnd = 4,
          effects = [SetRangeText (js ''   '') 1 3 End, InputEvent]\<rparr>"
    unfolding indent_caret_mode [OF a b c d] by code_simp
  then show ?thesis .
qed

text \<open>
  C6. \<open>outdent\<close> leaves the text area as it is (no rewrite, no event) exactly
  when the text rebuilt for the line range equals the slice it was built from;
  otherwise the range is replaced by one call of \<^verbatim>\<open>setRangeText\<close>, followed by
  one event.
\<close>

theorem outdent_noop_iff:
  assumes "selectionStart input \<le> selectionEnd input"
    and "selectionEnd input \<le> length (text_value input)"
  shows
    "(let line_start = getLineStart (text_value input) (selectionStart input);
          line_end = getLineEnd (text_value input) (selectionEnd input);
          value_slice = slice_js (text_value input) line_start line_end;
          replacement = replaceAll_leading (outdent_replacer config) value_slice
      in (outdent config input = Inr input) = (replacement = value_slice)
       \<and> (if replacement = value_slice then outdent config input = Inr input
          else \<exists>input'. outdent config input = Inr input'
                 \<and> text_value input' = take line_start (text_value input) @ replacement
                                        @ drop line_end (text_value input)
                 \<and> effects input' = effects input
                      @ [SetRangeText replacement line_start line_end Preserve, InputEvent]))"
proof -
  define ls where "ls = getLineStart (text_value input) (selectionStart input)"
  define le where "le = getLineEnd (text_value input) (selectionEnd input)"
  define sl where "sl = slice_js (text_value input) ls le"
  define r where "r = replaceAll_leading (outdent_replacer config) sl"
  have le_len: "le \<le> length (text_value input)"
    unfolding le_def using assms(2) by (rule getLineEnd_le)
  have out: "outdent config input =
      (if r = sl then Inr input
       else case setRangeText r ls le Preserve input of Inl e \<Rightarrow> Inl e | Inr input' \<Rightarrow> Inr (dispatchEvent input'))"
    by (simp add: outdent_def Let_def ls_def le_def sl_def r_def)
  have changed: "\<exists>input'. outdent config input = Inr input'
         \<and> text_value input' = take ls (text_value input) @ r @ drop le (text_value input)
         \<and> effects input' = effects input @ [SetRangeText r ls le Preserve, InputEvent]"
    if neq: "r \<noteq> sl"
  proof -
    have "ls \<le> le"
    proof (rule ccontr)
      assume "\<not> ls \<le> le"
      then have "sl = []" by (simp add: sl_def slice_js_empty)
      then have "r = sl" by (simp add: r_def replaceAll_leading_Nil outdent_replacer_Nil)
      with neq show False by simp
    qed
    from setRangeText_ok [OF this le_len, of r Preserve]
    obtain input' where "setRangeText r ls le Preserve input = Inr input'"
      "text_value input' = take ls (text_value input) @ r @ drop le (text_value input)"
      "effects input' = effects input @ [SetRangeText r ls le Preserve]" by blast
    with neq out show ?thesis by (simp add: dispatchEvent_def)
  qed
  have "outdent config input \<noteq> Inr input" if neq: "r \<noteq> sl"
    using changed [OF neq] by auto
  with out changed show ?thesis
    unfolding Let_def ls_def [symmetric] le_def [symmetric] sl_def [symmetric] r_def [symmetric]
    by auto
qed

theorem outdent_noop_iff_witness:
  "outdent \<lparr>tabSize = 4, insertSpaces = True\<rparr>
      \<lparr>text_value = js ''    x'', selectionStart = 5, selectionEnd = 5, effects = []\<rparr>
     \<noteq> Inr \<lparr>text_value = js ''    x'', selectionStart = 5, selectionEnd = 5, effects = []\<rparr>
   \<and> (\<exists>input'. outdent \<lparr>tabSize = 4, insertSpaces = True\<rparr>
         \<lparr>text_value = js ''    x'', selectionStart = 5, selectionEnd = 5, effects = []\<rparr> = Inr input'
       \<and> text_value input' = js ''x''
       \<and> effects input' = [SetRangeText (js ''x'') 0 5 Preserve, InputEvent])"
proof -
  let ?input = "\<lparr>text_value = js ''    x'', selectionStart = 5, selectionEnd = 5, effects = []\<rparr>"
  let ?config = "\<lparr>tabSize = 4, insertSpaces = True\<rparr>"
  have a: "selectionStart ?input \<le> selectionEnd ?input" by simp
  have b: "selectionEnd ?input \<le> length (text_value ?input)" by (simp add: js_def)
  have ls: "getLineStart (text_value ?input) (selectionStart ?input) = 0" by code_simp
  have le: "getLineEnd (text_value ?input) (selectionEnd ?input) = 5" by code_simp
  have sl: "slice_js (text_value ?input) 0 5 = js ''    x''" by code_simp
  have r: "replaceAll_leading (outdent_replacer ?config) (js ''    x'') = js ''x''" by code_simp
  have neq: "js ''x'' \<noteq> js ''    x''" by code_simp
  have v: "take 0 (text_value ?input) @ js ''x'' @ drop 5 (text_value ?input) = js ''x''" by code_simp
  have e: "effects ?input @ [SetRangeText (js ''x'') 0 5 Preserve, InputEvent]
     = [SetRangeText (js ''x'') 0 5 Preserve, InputEvent]" by simp
  from outdent_noop_iff [OF a b, of ?config] show ?thesis
    unfolding Let_def ls le sl r v e using neq by simp
qed

text \<open>
  C7 (as the code has it). \<open>indent\<close> rewrites whole lines (one \<^verbatim>\<open>setRangeText\<close>
  on the line range, selection preserved) if and only if the selection is not
  empty, starts at a line start and ends at a line end (the end of the buffer,
  or before a line feed or carriage return), or a line feed stands at an index
  \<open>i\<close> with \<open>start \<le> i < end\<close>: the interval includes \<open>start\<close>. Every other
  selection, and so every empty one, takes the other branch (one
  \<^verbatim>\<open>setRangeText\<close> on the selection itself, caret placed after the text).
\<close>

theorem indent_mode_iff:
  assumes "selectionStart input \<le> selectionEnd input"
    and "selectionEnd input \<le> length (text_value input)"
  shows
    "(let str = text_value input; start = selectionStart input; end' = selectionEnd input;
          whole_lines =
            ((start \<noteq> end' \<and> (start = 0 \<or> char_at str (start - 1) = Some LF)
               \<and> (end' = length str \<or> char_at str end' = Some LF \<or> char_at str end' = Some CR))
             \<or> (\<exists>i. start \<le> i \<and> i < end' \<and> char_at str i = Some LF))
      in (whole_lines =
            (\<exists>input' r. indent config input = Inr input'
               \<and> effects input' = effects input
                    @ [SetRangeText r (getLineStart str start) (getLineEnd str end') Preserve, InputEvent]))
       \<and> ((\<not> whole_lines) =
            (\<exists>input' r. indent config input = Inr input'
               \<and> effects input' = effects input @ [SetRangeText r start end' End, InputEvent]))
       \<and> (start = end' \<longrightarrow> \<not> whole_lines))"
proof -
  define str where "str = text_value input"
  define s where "s = selectionStart input"
  define e where "e = selectionEnd input"
  define blk where "blk = (select_both_ends str s e \<or> isMultiLine str s e)"
  have blk_eq: "blk = ((s \<noteq> e \<and> (s = 0 \<or> char_at str (s - 1) = Some LF)
               \<and> (e = length str \<or> char_at str e = Some LF \<or> char_at str e = Some CR))
             \<or> (\<exists>i. s \<le> i \<and> i < e \<and> char_at str i = Some LF))"
    by (simp add: blk_def select_both_ends_def isMultiLine_iff Let_def)
  have se: "s \<le> e" "e \<le> length str" using assms by (simp_all add: s_def e_def str_def)
  have in_block: "\<exists>input' r. indent config input = Inr input'
       \<and> effects input' = effects input @ [SetRangeText r (getLineStart str s) (getLineEnd str e) Preserve, InputEvent]"
    if blk
  proof -
    from that have "getLineStart str s \<le> getLineEnd str e"
      unfolding blk_def using se(1) by (rule block_mode_range)
    moreover have "getLineEnd str e \<le> length str" using se(2) by (rule getLineEnd_le)
    ultimately obtain input' where
      "setRangeText (replaceAll_leading (indent_replacer config (getLineEnd str e))
           (slice_js str (getLineStart str s) (getLineEnd str e)))
         (getLineStart str s) (getLineEnd str e) Preserve input = Inr input'"
      "effects input' = effects input @ [SetRangeText (replaceAll_leading (indent_replacer config (getLineEnd str e))
           (slice_js str (getLineStart str s) (getLineEnd str e))) (getLineStart str s) (getLineEnd str e) Preserve]"
      using setRangeText_ok [of "getLineStart str s" "getLineEnd str e" input _ Preserve]
      unfolding str_def by blast
    with that show ?thesis
      by (simp add: indent_def Let_def blk_def str_def s_def e_def dispatchEvent_def)
  qed
  have in_caret: "\<exists>input' r. indent config input = Inr input'
       \<and> effects input' = effects input @ [SetRangeText r s e End, InputEvent]"
    if "\<not> blk"
  proof -
    define r where "r = (if insertSpaces config
        then repeat SP (padding (tabSize config) (selectionStart input)
               (getLineStart (text_value input) (selectionStart input)))
        else [TAB])"
    obtain input' where
      "setRangeText r (selectionStart input) (selectionEnd input) End input = Inr input'"
      "effects input' = effects input @ [SetRangeText r (selectionStart input) (selectionEnd input) End]"
      using setRangeText_ok [of s e input r End] se unfolding str_def s_def e_def by blast
    moreover from that have "indent config input =
        (case setRangeText r (selectionStart input) (selectionEnd input) End input of
           Inl e \<Rightarrow> Inl e | Inr input' \<Rightarrow> Inr (dispatchEvent input'))"
      by (simp add: indent_def Let_def blk_def str_def s_def e_def r_def)
    ultimately show ?thesis
      by (auto simp: dispatchEvent_def s_def e_def)
  qed
  have "blk = (\<exists>input' r. indent config input = Inr input'
       \<and> effects input' = effects input @ [SetRangeText r (getLineStart str s) (getLineEnd str e) Preserve, InputEvent])"
    using in_block in_caret by (cases blk) auto
  moreover have "(\<not> blk) = (\<exists>input' r. indent config input = Inr input'
       \<and> effects input' = effects input @ [SetRangeText r s e End, InputEvent])"
    using in_block in_caret by (cases blk) auto
  moreover have "s = e \<longrightarrow> \<not> blk" by (auto simp: blk_eq)
  ultimately show ?thesis
    unfolding Let_def str_def [symmetric] s_def [symmetric] e_def [symmetric] blk_eq [symmetric]
    by blast
qed

theorem indent_mode_iff_witness:
  "\<exists>input' r. indent \<lparr>tabSize = 4, insertSpaces = True\<rparr>
        \<lparr>text_value = js ''ab'' @ [LF] @ js ''cd'', selectionStart = 1, selectionEnd = 4, effects = []\<rparr>
      = Inr input'
     \<and> effects input' = [SetRangeText r 0 5 Preserve, InputEvent]"
proof -
  let ?input = "\<lparr>text_value = js ''ab'' @ [LF] @ js ''cd'', selectionStart = 1, selectionEnd = 4, effects = []\<rparr>"
  let ?config = "\<lparr>tabSize = 4, insertSpaces = True\<rparr>"
  have a: "selectionStart ?input \<le> selectionEnd ?input" by simp
  have b: "selectionEnd ?input \<le> length (text_value ?input)" by (simp add: js_def)
  have ls: "getLineStart (text_value ?input) (selectionStart ?input) = 0" by code_simp
  have le: "getLineEnd (text_value ?input) (selectionEnd ?input) = 5" by code_simp
  have "selectionStart ?input \<le> 2 \<and> 2 < selectionEnd ?input \<and> char_at (text_value ?input) 2 = Some LF"
    by code_simp
  then have w: "\<exists>i. selectionStart ?input \<le> i \<and> i < selectionEnd ?input \<and> char_at (text_value ?input) i = Some LF"
    by (rule exI)
  from indent_mode_iff [OF a b, of ?config] w show ?thesis
    unfolding Let_def ls le by simp
qed

text \<open>
  C7 with the open interval does not hold: when the selection is exactly one
  line feed, which stands at the index \<open>start\<close>, no index lies strictly between
  \<open>start\<close> and \<open>end\<close> and the selection does not start at a line start, yet
  \<open>isMultiLine\<close> finds the line feed and \<open>indent\<close> rewrites the whole line.
\<close>

theorem indent_line_feed_at_start_counterexample:
  "\<not> block_mode_as_stated (js ''a'' @ [LF] @ js ''b'') 1 2
   \<and> isMultiLine (js ''a'' @ [LF] @ js ''b'') 1 2
   \<and> indent \<lparr>tabSize = 4, insertSpaces = True\<rparr>
        \<lparr>text_value = js ''a'' @ [LF] @ js ''b'', selectionStart = 1, selectionEnd = 2, effects = []\<rparr>
      = Inr \<lparr>text_value = js ''    a'' @ [LF] @ js ''b'', selectionStart = 0, selectionEnd = 6,
             effects = [SetRangeText (js ''    a'') 0 1 Preserve, InputEvent]\<rparr>"
  by code_simp



text \<open>
  C2 (as the code has it). \<open>outdent\<close> replaces the leading run of every line of
  the range by \<open>w div tabSize - 1\<close> tab stops, where \<open>w\<close> is the width of the
  run and the count is clamped at zero. So the width never grows, and a line
  loses at most \<open>tabSize + w mod tabSize\<close> of it: at most \<open>tabSize\<close> when \<open>w\<close> is
  a multiple of the tab size, more than that when it is not and \<open>w\<close> exceeds
  the tab size.
\<close>

theorem outdent_removes_to_previous_stop:
  assumes "selectionEnd input \<le> length (text_value input)"
  shows "\<exists>input' r. outdent config input = Inr input'
     \<and> text_value input' =
         take (getLineStart (text_value input) (selectionStart input)) (text_value input) @ r
         @ drop (max (getLineStart (text_value input) (selectionStart input))
                     (getLineEnd (text_value input) (selectionEnd input))) (text_value input)
     \<and> list_all2
         (\<lambda>l l'. countLeadingSpaces l' 0 (tabSize config)
              = (countLeadingSpaces l 0 (tabSize config) div tabSize config - 1) * tabSize config
          \<and> countLeadingSpaces l' 0 (tabSize config) \<le> countLeadingSpaces l 0 (tabSize config)
          \<and> countLeadingSpaces l 0 (tabSize config) - countLeadingSpaces l' 0 (tabSize config)
              \<le> tabSize config + countLeadingSpaces l 0 (tabSize config) mod tabSize config
          \<and> (tabSize config dvd countLeadingSpaces l 0 (tabSize config) \<longrightarrow>
              countLeadingSpaces l 0 (tabSize config) - countLeadingSpaces l' 0 (tabSize config)
                \<le> tabSize config))
         (lines_of (slice_js (text_value input) (getLineStart (text_value input) (selectionStart input))
             (getLineEnd (text_value input) (selectionEnd input))))
         (lines_of r)"
proof -
  define sl where "sl = slice_js (text_value input) (getLineStart (text_value input) (selectionStart input))
             (getLineEnd (text_value input) (selectionEnd input))"
  define r where "r = replaceAll_leading (outdent_replacer config) sl"
  have "list_all2
         (\<lambda>l l'. countLeadingSpaces l' 0 (tabSize config)
              = (countLeadingSpaces l 0 (tabSize config) div tabSize config - 1) * tabSize config
          \<and> countLeadingSpaces l' 0 (tabSize config) \<le> countLeadingSpaces l 0 (tabSize config)
          \<and> countLeadingSpaces l 0 (tabSize config) - countLeadingSpaces l' 0 (tabSize config)
              \<le> tabSize config + countLeadingSpaces l 0 (tabSize config) mod tabSize config
          \<and> (tabSize config dvd countLeadingSpaces l 0 (tabSize config) \<longrightarrow>
              countLeadingSpaces l 0 (tabSize config) - countLeadingSpaces l' 0 (tabSize config)
                \<le> tabSize config))
         (lines_of sl) (lines_of r)"
    unfolding r_def
    by (rule list_all2_mono [OF outdent_lines]) (use previous_tab_stop_bounds in auto)
  with outdent_value [OF assms, of config] show ?thesis
    unfolding sl_def r_def by blast
qed

theorem outdent_removes_to_previous_stop_witness:
  "\<exists>input' r. outdent \<lparr>tabSize = 4, insertSpaces = True\<rparr>
        \<lparr>text_value = js ''         x'', selectionStart = 0, selectionEnd = 0, effects = []\<rparr> = Inr input'
     \<and> text_value input' = r
     \<and> list_all2
         (\<lambda>l l'. countLeadingSpaces l' 0 4 = (countLeadingSpaces l 0 4 div 4 - 1) * 4
          \<and> countLeadingSpaces l' 0 4 \<le> countLeadingSpaces l 0 4
          \<and> countLeadingSpaces l 0 4 - countLeadingSpaces l' 0 4 \<le> 4 + countLeadingSpaces l 0 4 mod 4
          \<and> (4 dvd countLeadingSpaces l 0 4 \<longrightarrow>
              countLeadingSpaces l 0 4 - countLeadingSpaces l' 0 4 \<le> 4))
         [js ''         x''] (lines_of r)"
proof -
  let ?input = "\<lparr>text_value = js ''         x'', selectionStart = 0, selectionEnd = 0, effects = []\<rparr>"
  let ?config = "\<lparr>tabSize = 4, insertSpaces = True\<rparr>"
  have b: "selectionEnd ?input \<le> length (text_value ?input)" by simp
  have ls: "getLineStart (text_value ?input) (selectionStart ?input) = 0" by code_simp
  have le: "getLineEnd (text_value ?input) (selectionEnd ?input) = 10" by code_simp
  have sl: "lines_of (slice_js (text_value ?input) 0 10) = [js ''         x'']" by code_simp
  have dr: "drop (max 0 10) (text_value ?input) = []" by code_simp
  have ts: "tabSize ?config = 4" by simp
  from outdent_removes_to_previous_stop [OF b, of ?config] show ?thesis
    unfolding ls le sl dr ts by simp
qed

text \<open>
  C2 as stated does not hold: with a tab size of 4, a line indented by five
  spaces loses all five, more than one tab stop.
\<close>

theorem outdent_five_spaces_counterexample:
  "(case outdent \<lparr>tabSize = 4, insertSpaces = True\<rparr>
           \<lparr>text_value = js ''     x'', selectionStart = 0, selectionEnd = 0, effects = []\<rparr> of
      Inl e \<Rightarrow> False
    | Inr input' \<Rightarrow>
        text_value input' = js ''x''
      \<and> \<not> (countLeadingSpaces (js ''     x'') 0 4 - countLeadingSpaces (text_value input') 0 4 \<le> 4))"
  by code_simp







text \<open>
  C3 (as the code has it). Take a caret in a buffer, a positive tab size, and
  let the line of the caret have a leading-whitespace width \<open>w\<close> that is a
  multiple of the tab size. \<open>indent\<close> followed by \<open>outdent\<close> at the resulting
  caret gives that line the width \<open>w\<close> again in two cases: the caret lies
  inside the leading run of the line (at most at its end) and the inserted
  text fills a whole tab stop there (a tab character, or spaces at an offset in
  the line that is a multiple of the tab size); or the line has no leading
  whitespace.
\<close>

theorem indent_then_outdent_restores_width:
  assumes caret: "selectionStart input = selectionEnd input"
    and len: "selectionEnd input \<le> length (text_value input)"
    and tab: "0 < tabSize config"
    and aligned: "tabSize config dvd countLeadingSpaces (text_value input)
                    (getLineStart (text_value input) (selectionStart input)) (tabSize config)"
    and place:
      "(selectionStart input - getLineStart (text_value input) (selectionStart input)
          \<le> length (takeWhile is_blank
                (drop (getLineStart (text_value input) (selectionStart input)) (text_value input)))
        \<and> (insertSpaces config \<longrightarrow>
             tabSize config dvd
               (selectionStart input - getLineStart (text_value input) (selectionStart input))))
       \<or> countLeadingSpaces (text_value input)
            (getLineStart (text_value input) (selectionStart input)) (tabSize config) = 0"
  shows "\<exists>input1 input2.
       indent config input = Inr input1
     \<and> selectionStart input1 = selectionEnd input1
     \<and> getLineStart (text_value input1) (selectionStart input1)
         = getLineStart (text_value input) (selectionStart input)
     \<and> outdent config input1 = Inr input2
     \<and> countLeadingSpaces (text_value input2)
          (getLineStart (text_value input) (selectionStart input)) (tabSize config)
         = countLeadingSpaces (text_value input)
             (getLineStart (text_value input) (selectionStart input)) (tabSize config)"
proof -
  define v where "v = text_value input"
  define c where "c = selectionStart input"
  define ls where "ls = getLineStart v c"
  define T where "T = tabSize config"
  define ins where "ins = (if insertSpaces config then repeat SP (padding T c ls) else [TAB])"
  define A where "A = drop ls (take c v)"
  define B where "B = drop c v"
  define w where "w = countLeadingSpaces v ls T"
  have c_len: "c \<le> length v" using len caret by (simp add: c_def v_def)
  have ls_c: "ls \<le> c" unfolding ls_def by (rule getLineStart_le)
  have ins_blank: "\<forall>x \<in> set ins. is_blank x"
    unfolding ins_def T_def using caret_insertion(2) [OF tab] by blast
  have ins_le: "countLeadingSpaces ins 0 T \<le> T"
    by (simp add: ins_def repeat_def padding_def countLeadingSpaces_replicate_SP)
  from indent_at_caret [OF caret len tab]
  obtain input1 where ind: "indent config input = Inr input1"
    and v1: "text_value input1 = take c v @ ins @ drop c v"
    and s1: "selectionStart input1 = c + length ins" "selectionEnd input1 = c + length ins"
    and ls1: "getLineStart (text_value input1) (selectionStart input1) = ls"
    and range: "ls \<le> getLineEnd (text_value input1) (selectionEnd input1)"
    unfolding v_def c_def ls_def ins_def T_def by blast
  have len1: "selectionEnd input1 \<le> length (text_value input1)"
    using c_len by (simp add: s1 v1)
  from outdent_first_line [OF len1, of config] range
  obtain input2 where out: "outdent config input1 = Inr input2"
    and w2: "countLeadingSpaces (text_value input2) ls T
        = (countLeadingSpaces (text_value input1) ls T div T - 1) * T"
    unfolding ls1 T_def by blast
  have line: "drop ls v = A @ B"
    using drop_append [of ls "take c v" "drop c v"] ls_c c_len by (simp add: A_def B_def)
  have line1: "drop ls (text_value input1) = A @ ins @ B"
    using ls_c c_len by (simp add: v1 A_def B_def)
  have w_eq: "w = countLeadingSpaces (A @ B) 0 T"
    by (simp add: w_def countLeadingSpaces_drop [of v ls] line)
  have w1_eq: "countLeadingSpaces (text_value input1) ls T = countLeadingSpaces (A @ ins @ B) 0 T"
    by (simp add: countLeadingSpaces_drop [of "text_value input1" ls] line1)
  have "(countLeadingSpaces (A @ ins @ B) 0 T div T - 1) * T = w"
  proof (cases "c - ls \<le> length (takeWhile is_blank (drop ls v))
        \<and> (insertSpaces config \<longrightarrow> T dvd (c - ls))")
    case True
    have "A = take (c - ls) (drop ls v)" by (simp add: A_def drop_take)
    also have "\<dots> = take (c - ls) (takeWhile is_blank (drop ls v) @ dropWhile is_blank (drop ls v))"
      by simp
    also have "\<dots> = take (c - ls) (takeWhile is_blank (drop ls v))"
      using True by (auto simp del: takeWhile_dropWhile_id)
    finally have "set A \<subseteq> set (takeWhile is_blank (drop ls v))"
      by (simp add: set_take_subset)
    then have A_blank: "\<forall>x \<in> set A. is_blank x" by (auto dest: set_takeWhileD)
    have "countLeadingSpaces ins 0 T = T"
      unfolding ins_def T_def using True
      by (intro caret_insertion(3) [OF tab]) (simp add: T_def)
    then have "countLeadingSpaces (A @ ins @ B) 0 T = w + T"
      using A_blank ins_blank by (simp add: w_eq countLeadingSpaces_append)
    moreover have "T dvd w" using aligned by (simp add: w_def v_def c_def ls_def T_def)
    ultimately show ?thesis using tab by (auto simp: T_def)
  next
    case False
    with place have w0: "w = 0" by (auto simp: w_def v_def c_def ls_def T_def)
    then have no_run: "takeWhile is_blank (A @ B) = []"
      using countLeadingSpaces_zero_iff [of T "A @ B"] tab by (simp add: w_eq T_def)
    have "countLeadingSpaces (A @ ins @ B) 0 T \<le> T"
    proof (cases A)
      case Nil
      with no_run have "countLeadingSpaces B 0 T = 0" by (simp add: countLeadingSpaces_no_run)
      with Nil ins_blank ins_le show ?thesis by (simp add: countLeadingSpaces_append)
    next
      case (Cons a as)
      with no_run have "\<not> is_blank a" by (auto split: if_splits)
      with Cons show ?thesis by (simp add: is_blank_def)
    qed
    then have "countLeadingSpaces (A @ ins @ B) 0 T div T \<le> 1"
      using tab by (intro div_le_one) (simp_all add: T_def)
    with w0 show ?thesis by simp
  qed
  with w2 w1_eq have "countLeadingSpaces (text_value input2) ls T = w" by simp
  with ind s1 ls1 out show ?thesis
    by (auto simp: v_def c_def ls_def T_def w_def)
qed

theorem indent_then_outdent_restores_width_witness:
  "\<exists>input1 input2.
       indent \<lparr>tabSize = 4, insertSpaces = True\<rparr>
         \<lparr>text_value = js ''    x'', selectionStart = 4, selectionEnd = 4, effects = []\<rparr> = Inr input1
     \<and> selectionStart input1 = selectionEnd input1
     \<and> getLineStart (text_value input1) (selectionStart input1) = 0
     \<and> outdent \<lparr>tabSize = 4, insertSpaces = True\<rparr> input1 = Inr input2
     \<and> countLeadingSpaces (text_value input2) 0 4 = 4"
proof -
  let ?input = "\<lparr>text_value = js ''    x'', selectionStart = 4, selectionEnd = 4, effects = []\<rparr>"
  let ?config = "\<lparr>tabSize = 4, insertSpaces = True\<rparr>"
  have a: "selectionStart ?input = selectionEnd ?input" by simp
  have b: "selectionEnd ?input \<le> length (text_value ?input)" by (simp add: js_def)
  have c: "0 < tabSize ?config" by simp
  have ls: "getLineStart (text_value ?input) (selectionStart ?input) = 0" by code_simp
  have w: "countLeadingSpaces (text_value ?input) 0 (tabSize ?config) = 4" by code_simp
  have d: "tabSize ?config dvd countLeadingSpaces (text_value ?input)
                    (getLineStart (text_value ?input) (selectionStart ?input)) (tabSize ?config)"
    unfolding ls w by simp
  have run: "length (takeWhile is_blank (drop 0 (text_value ?input))) = 4" by code_simp
  have e: "(selectionStart ?input - getLineStart (text_value ?input) (selectionStart ?input)
          \<le> length (takeWhile is_blank
                (drop (getLineStart (text_value ?input) (selectionStart ?input)) (text_value ?input)))
        \<and> (insertSpaces ?config \<longrightarrow>
             tabSize ?config dvd
               (selectionStart ?input - getLineStart (text_value ?input) (selectionStart ?input))))
       \<or> countLeadingSpaces (text_value ?input)
            (getLineStart (text_value ?input) (selectionStart ?input)) (tabSize ?config) = 0"
    unfolding ls run by simp
  from indent_then_outdent_restores_width [OF a b c d e] show ?thesis
    unfolding ls w by simp
qed

text \<open>
  C3 as stated does not hold. With a tab size of 4 and the caret at the end of
  the line \<open>x\<close> indented by four spaces, \<open>indent\<close> appends three spaces after the
  \<open>x\<close> and leaves the leading whitespace as it is; \<open>outdent\<close> at the new caret
  then removes the four leading spaces: the width is 0, not 4.
\<close>

theorem indent_then_outdent_counterexample:
  "(case indent \<lparr>tabSize = 4, insertSpaces = True\<rparr>
           \<lparr>text_value = js ''    x'', selectionStart = 5, selectionEnd = 5, effects = []\<rparr> of
      Inl e \<Rightarrow> False
    | Inr input1 \<Rightarrow>
        (case outdent \<lparr>tabSize = 4, insertSpaces = True\<rparr> input1 of
           Inl e \<Rightarrow> False
         | Inr input2 \<Rightarrow>
             countLeadingSpaces (js ''    x'') (getLineStart (js ''    x'') 5) 4 = 4
           \<and> text_value input1 = js ''    x   ''
           \<and> selectionStart input1 = 8 \<and> selectionEnd input1 = 8
           \<and> text_value input2 = js ''x   ''
           \<and> countLeadingSpaces (text_value input2)
                (getLineStart (text_value input2) (selectionStart input2)) 4
              \<noteq> countLeadingSpaces (js ''    x'') (getLineStart (js ''    x'') 5) 4))"
  by code_simp

end
